theory Spec2Isabelle
  imports Main "HOL-Library.Word"
begin

section \<open>Strings of the source language\<close>

text \<open>
  The service is TypeScript: a string is a sequence of 16-bit code units, \<open>length\<close> counts
  code units, and the regular expression of \<open>chunkText\<close> (no \<open>u\<close> flag) works on code
  units as well.
\<close>

type_synonym code_unit = "16 word"
type_synonym jsstring = "code_unit list"

text \<open>The character class \<open>[.!?\n]\<close> of the splitting expression.\<close>

definition isDelim :: "code_unit \<Rightarrow> bool" where
  "isDelim c \<longleftrightarrow> c = 0x2E \<or> c = 0x21 \<or> c = 0x3F \<or> c = 0x0A"

text \<open>
  The class \<open>\s\<close>, which is also what \<open>String.prototype.trim\<close> strips: the white space
  code points (TAB, VT, FF, SP, NBSP, ZWNBSP and the space separators) and the line
  terminators (LF, CR, LS, PS).
\<close>

definition isWhiteSpace :: "code_unit \<Rightarrow> bool" where
  "isWhiteSpace c \<longleftrightarrow>
     c = 0x09 \<or> c = 0x0A \<or> c = 0x0B \<or> c = 0x0C \<or> c = 0x0D \<or> c = 0x20 \<or> c = 0xA0 \<or>
     c = 0x1680 \<or> (0x2000 \<le> c \<and> c \<le> 0x200A) \<or> c = 0x2028 \<or> c = 0x2029 \<or>
     c = 0x202F \<or> c = 0x205F \<or> c = 0x3000 \<or> c = 0xFEFF"

definition trim :: "jsstring \<Rightarrow> jsstring" where
  "trim s = rev (dropWhile isWhiteSpace (rev (dropWhile isWhiteSpace s)))"

text \<open>
  \<open>s.lastIndexOf(c, pos)\<close> for a one-character search string: the greatest index
  \<open>k \<le> min pos (length s - 1)\<close> with \<open>s[k] = c\<close>, and \<open>-1\<close> when there is none.
\<close>

fun lastIndexFrom :: "code_unit \<Rightarrow> jsstring \<Rightarrow> nat \<Rightarrow> int" where
  "lastIndexFrom c s 0 = (if s \<noteq> [] \<and> s ! 0 = c then 0 else - 1)"
| "lastIndexFrom c s (Suc k) =
     (if Suc k < length s \<and> s ! Suc k = c then int (Suc k) else lastIndexFrom c s k)"

definition lastIndexOf :: "jsstring \<Rightarrow> code_unit \<Rightarrow> nat \<Rightarrow> int" where
  "lastIndexOf s c pos = (if s = [] then - 1 else lastIndexFrom c s (min pos (length s - 1)))"

section \<open>The splitting expression\<close>

text \<open>
  \<open>text.match(/[^.!?\n]+[.!?\n]+(\s+|$)|[^.!?\n]+$/g)\<close>, as the backtracking matcher runs
  it. Every function below works on the rest of the text from the current index and
  returns the length of the match found there, if any.

  The group \<open>(\s+|$)\<close>: the longest run of white space if there is one (nothing follows the
  group, so the greedy choice stands), otherwise the end of the text.
\<close>

definition tailGroup :: "jsstring \<Rightarrow> nat option" where
  "tailGroup s =
     (let w = length (takeWhile isWhiteSpace s)
      in if 0 < w then Some w else if s = [] then Some 0 else None)"

text \<open>
  \<open>[.!?\n]+\<close> followed by the group: the quantifier first takes the whole run of \<open>k\<close>
  delimiters and gives one back at a time while the group fails.
\<close>

fun delimsThenTail :: "nat \<Rightarrow> jsstring \<Rightarrow> nat option" where
  "delimsThenTail 0 s = None"
| "delimsThenTail (Suc k) s =
     (case tailGroup (drop (Suc k) s) of
        Some w \<Rightarrow> Some (Suc k + w)
      | None \<Rightarrow> delimsThenTail k s)"

text \<open>
  The first alternative: \<open>[^.!?\n]+\<close> takes \<open>j\<close> characters, from the whole run down to
  one, and the rest of the alternative is tried after each.
\<close>

fun sentenceAlt :: "nat \<Rightarrow> jsstring \<Rightarrow> nat option" where
  "sentenceAlt 0 s = None"
| "sentenceAlt (Suc j) s =
     (case delimsThenTail (length (takeWhile isDelim (drop (Suc j) s))) (drop (Suc j) s) of
        Some n \<Rightarrow> Some (Suc j + n)
      | None \<Rightarrow> sentenceAlt j s)"

text \<open>The second alternative, \<open>[^.!?\n]+$\<close>; without the \<open>m\<close> flag \<open>$\<close> is the end of the text.\<close>

fun trailingAlt :: "nat \<Rightarrow> jsstring \<Rightarrow> nat option" where
  "trailingAlt 0 s = None"
| "trailingAlt (Suc j) s = (if drop (Suc j) s = [] then Some (Suc j) else trailingAlt j s)"

definition matchHere :: "jsstring \<Rightarrow> nat option" where
  "matchHere s =
     (let j = length (takeWhile (\<lambda>c. \<not> isDelim c) s)
      in case sentenceAlt j s of Some n \<Rightarrow> Some n | None \<Rightarrow> trailingAlt j s)"

text \<open>
  The \<open>g\<close> flag: all matches from left to right. After a match the search goes on behind
  it (one further for an empty match); where nothing matches at an index, the next index
  is tried. At the end of the text nothing can match, both alternatives need a character.
\<close>

fun matchAll :: "jsstring \<Rightarrow> jsstring list" where
  "matchAll s =
     (if s = [] then []
      else case matchHere s of
             None \<Rightarrow> matchAll (tl s)
           | Some n \<Rightarrow> take n s # matchAll (drop (max 1 n) s))"

declare matchAll.simps [simp del]

text \<open>\<open>text.match(...) || [text]\<close>: \<open>match\<close> is \<open>null\<close> when there is no match at all.\<close>

definition rawSentences :: "jsstring \<Rightarrow> jsstring list" where
  "rawSentences text = (let m = matchAll text in if m = [] then [text] else m)"

section \<open>chunkText\<close>

text \<open>
  \<open>services/geminiService.ts\<close> holds the service twice, an earlier text without chunking
  and the current one; \<open>chunkText\<close> and the \<open>generateSpeech\<close> that calls it are of the
  current one, and are what is modelled here.
\<close>

definition MAX_CHAR_LIMIT :: nat where
  "MAX_CHAR_LIMIT = 3000"

text \<open>
  The inner \<open>while (remaining.length > 0)\<close> loop of the hard split, on the variables it
  reads and writes. The loop has no bound in the source; \<open>None\<close> is a run that never
  leaves it.
\<close>

partial_function (option) hardSplit ::
  "jsstring list \<Rightarrow> jsstring \<Rightarrow> jsstring \<Rightarrow> (jsstring list \<times> jsstring) option" where
  "hardSplit chunks currentChunk remaining =
     (if 0 < length remaining then
        if length remaining \<le> MAX_CHAR_LIMIT then Some (chunks, remaining)
        else
          let breakIndex = lastIndexOf remaining 0x20 MAX_CHAR_LIMIT;
              breakIndex = (if breakIndex = - 1 then int MAX_CHAR_LIMIT else breakIndex)
          in hardSplit (chunks @ [trim (take (nat breakIndex) remaining)]) currentChunk
               (drop (nat breakIndex) remaining)
      else Some (chunks, currentChunk))"

declare hardSplit.simps [code]

text \<open>The \<open>for (const sentence of rawSentences)\<close> loop, on \<open>chunks\<close> and \<open>currentChunk\<close>.\<close>

fun sentenceLoop ::
  "jsstring list \<Rightarrow> jsstring list \<Rightarrow> jsstring \<Rightarrow> (jsstring list \<times> jsstring) option" where
  "sentenceLoop [] chunks currentChunk = Some (chunks, currentChunk)"
| "sentenceLoop (sentence # rest) chunks currentChunk =
     (if MAX_CHAR_LIMIT < length sentence then
        (case (if currentChunk \<noteq> []
               then hardSplit (chunks @ [trim currentChunk]) [] sentence
               else hardSplit chunks currentChunk sentence) of
           None \<Rightarrow> None
         | Some (chunks', currentChunk') \<Rightarrow> sentenceLoop rest chunks' currentChunk')
      else if length (currentChunk @ sentence) \<le> MAX_CHAR_LIMIT then
        sentenceLoop rest chunks (currentChunk @ sentence)
      else sentenceLoop rest (chunks @ [trim currentChunk]) sentence)"

definition chunkText :: "jsstring \<Rightarrow> jsstring list option" where
  "chunkText text =
     (case sentenceLoop (rawSentences text) [] [] of
        None \<Rightarrow> None
      | Some (chunks, currentChunk) \<Rightarrow>
          Some (if trim currentChunk \<noteq> [] then chunks @ [trim currentChunk] else chunks))"

section \<open>generateSpeech\<close>

text \<open>
  The speech service is outside the program. A call \<open>ai.models.generateContent(...)\<close> is
  either rejected (the awaited promise throws) or resolves to a response, of which the
  code reads one field only, \<open>candidates?.[0]?.content?.parts?.[0]?.inlineData?.data\<close>:
  a base64 string, or \<open>undefined\<close> when any link of the chain is missing.
\<close>

datatype generated = Rejected | Resolved "jsstring option"

type_synonym bytes = "8 word list"

text \<open>
  The service is a parameter \<open>gen\<close> of the model: from its own state, the voice name and the
  text of the request it gives the outcome of the call and its next state, so that it may
  answer the same text differently on different calls. The world a run leaves behind is
  the state of the service and the calls made, each with its outcome, in call order.
\<close>

type_synonym 's service = "'s \<Rightarrow> jsstring \<Rightarrow> jsstring \<Rightarrow> generated \<times> 's"

record 's world =
  service :: 's
  calls :: "(jsstring \<times> generated) list"

text \<open>
  \<open>base64ToUint8Array\<close> is imported from \<open>../utils/fileUtils\<close>; it is the second parameter,
  \<open>dec\<close>, with \<open>None\<close> for a decoder that throws on its input.
\<close>

type_synonym decoder = "jsstring \<Rightarrow> bytes option"

datatype error =
    ServiceFailure
  | DecodeFailure
  | NoAudioContent
  | RangeError
  | SpeechFailed

text \<open>
  The \<open>for (const chunk of textChunks)\<close> loop on \<open>audioChunks\<close> and \<open>totalLength\<close>. A string is
  falsy exactly when it is empty, so \<open>!chunk.trim()\<close> is \<open>trim chunk = []\<close> and
  \<open>if (base64Audio)\<close> holds for a string that is there and not empty.
\<close>

fun chunkLoop ::
  "'s service \<Rightarrow> decoder \<Rightarrow> jsstring \<Rightarrow> jsstring list \<Rightarrow> bytes list \<Rightarrow> nat \<Rightarrow> 's world
     \<Rightarrow> (error + bytes list \<times> nat) \<times> 's world" where
  "chunkLoop gen dec voiceName [] audioChunks totalLength w = (Inr (audioChunks, totalLength), w)"
| "chunkLoop gen dec voiceName (chunk # rest) audioChunks totalLength w =
     (if trim chunk = [] then chunkLoop gen dec voiceName rest audioChunks totalLength w
      else
        let (response, sv) = gen (service w) voiceName chunk;
            w' = \<lparr>service = sv, calls = calls w @ [(chunk, response)]\<rparr>
        in case response of
             Rejected \<Rightarrow> (Inl ServiceFailure, w')
           | Resolved base64Audio \<Rightarrow>
               (case base64Audio of
                  None \<Rightarrow> chunkLoop gen dec voiceName rest audioChunks totalLength w'
                | Some b \<Rightarrow>
                    if b = [] then chunkLoop gen dec voiceName rest audioChunks totalLength w'
                    else
                      (case dec b of
                         None \<Rightarrow> (Inl DecodeFailure, w')
                       | Some audioData \<Rightarrow>
                           chunkLoop gen dec voiceName rest (audioChunks @ [audioData])
                             (totalLength + length audioData) w')))"

text \<open>
  \<open>combinedAudio.set(chunk, offset)\<close> writes \<open>chunk\<close> into the buffer from \<open>offset\<close> on and
  throws a \<open>RangeError\<close> when it does not fit.
\<close>

definition setAt :: "bytes \<Rightarrow> bytes \<Rightarrow> nat \<Rightarrow> error + bytes" where
  "setAt target source offset =
     (if length target < offset + length source then Inl RangeError
      else Inr (take offset target @ source @ drop (offset + length source) target))"

fun copyLoop :: "bytes list \<Rightarrow> bytes \<Rightarrow> nat \<Rightarrow> error + bytes" where
  "copyLoop [] combinedAudio offset = Inr combinedAudio"
| "copyLoop (chunk # rest) combinedAudio offset =
     (case setAt combinedAudio chunk offset of
        Inl e \<Rightarrow> Inl e
      | Inr combinedAudio' \<Rightarrow> copyLoop rest combinedAudio' (offset + length chunk))"

text \<open>
  The body of the \<open>try\<close> block behind \<open>chunkText\<close>, and the \<open>catch\<close>, which replaces whatever
  was thrown by the one error of the public contract.
\<close>

definition synthesizeChunks ::
  "'s service \<Rightarrow> decoder \<Rightarrow> jsstring \<Rightarrow> jsstring list \<Rightarrow> 's \<Rightarrow> (error + bytes) \<times> 's world" where
  "synthesizeChunks gen dec voiceName textChunks sv =
     (case chunkLoop gen dec voiceName textChunks [] 0 \<lparr>service = sv, calls = []\<rparr> of
        (Inl e, w) \<Rightarrow> (Inl e, w)
      | (Inr (audioChunks, totalLength), w) \<Rightarrow>
          if totalLength = 0 then (Inl NoAudioContent, w)
          else (copyLoop audioChunks (replicate totalLength 0) 0, w))"

definition catchAll :: "error + bytes \<Rightarrow> error + bytes" where
  "catchAll r = (case r of Inl e \<Rightarrow> Inl SpeechFailed | Inr combinedAudio \<Rightarrow> Inr combinedAudio)"

text \<open>
  \<open>generateSpeech(text, voiceName)\<close>, started in service state \<open>sv\<close>. \<open>None\<close> is a run that
  never comes back from \<open>chunkText\<close>; otherwise the result is the rejection or the
  combined audio, together with the world left behind.
\<close>

text \<open>
  The caller passes the voice it selected; the default \<open>'Puck'\<close> of the parameter only
  stands in for an argument that is left out, and \<open>voiceName\<close> below is the name after
  that.
\<close>

definition generateSpeech ::
  "'s service \<Rightarrow> decoder \<Rightarrow> 's \<Rightarrow> jsstring \<Rightarrow> jsstring \<Rightarrow> ((error + bytes) \<times> 's world) option" where
  "generateSpeech gen dec sv text voiceName =
     (case chunkText text of
        None \<Rightarrow> None
      | Some textChunks \<Rightarrow>
          (case synthesizeChunks gen dec voiceName textChunks sv of
             (r, w) \<Rightarrow> Some (catchAll r, w)))"

text \<open>
  The payloads a sequence of calls delivered: the decoded bytes of every response that
  carried a non-empty string the decoder accepted.
\<close>

fun payloadOf :: "decoder \<Rightarrow> generated \<Rightarrow> bytes list" where
  "payloadOf dec Rejected = []"
| "payloadOf dec (Resolved None) = []"
| "payloadOf dec (Resolved (Some b)) =
     (if b = [] then [] else case dec b of None \<Rightarrow> [] | Some audioData \<Rightarrow> [audioData])"

definition payloads :: "decoder \<Rightarrow> (jsstring \<times> generated) list \<Rightarrow> bytes list" where
  "payloads dec log = concat (map (\<lambda>e. payloadOf dec (snd e)) log)"

text \<open>A response whose string is there and not empty, and on which the decoder throws.\<close>

definition undecodable :: "decoder \<Rightarrow> generated \<Rightarrow> bool" where
  "undecodable dec r \<longleftrightarrow> (\<exists>b. r = Resolved (Some b) \<and> b \<noteq> [] \<and> dec b = None)"

text \<open>The code units of a string that are not white space, in their order.\<close>

definition visible :: "jsstring \<Rightarrow> jsstring" where
  "visible s = filter (\<lambda>c. \<not> isWhiteSpace c) s"

text \<open>The budget of \<open>chunkText\<close>, as a property of a list of chunks.\<close>

definition within :: "jsstring list \<Rightarrow> bool" where
  "within chunks \<longleftrightarrow> (\<forall>c\<in>set chunks. length c \<le> MAX_CHAR_LIMIT)"

section \<open>Trimming and searching\<close>

lemma length_trim_le: "length (trim s) \<le> length s"
proof -
  have "length (trim s) \<le> length (dropWhile isWhiteSpace s)"
    unfolding trim_def by (metis length_dropWhile_le length_rev)
  also have "\<dots> \<le> length s" by (rule length_dropWhile_le)
  finally show ?thesis .
qed

lemma lastIndexFrom_range: "- 1 \<le> lastIndexFrom c s k \<and> lastIndexFrom c s k \<le> int k"
  by (induction k) auto

lemma lastIndexOf_range: "- 1 \<le> lastIndexOf s c pos \<and> lastIndexOf s c pos \<le> int pos"
proof (cases "s = []")
  case True
  then show ?thesis by (simp add: lastIndexOf_def)
next
  case False
  have "lastIndexFrom c s (min pos (length s - 1)) \<le> int (min pos (length s - 1))"
    using lastIndexFrom_range by blast
  moreover have "- 1 \<le> lastIndexFrom c s (min pos (length s - 1))"
    using lastIndexFrom_range by blast
  ultimately show ?thesis using False by (simp add: lastIndexOf_def)
qed

lemma trim_no_space: "\<forall>c\<in>set s. \<not> isWhiteSpace c \<Longrightarrow> trim s = s"
proof (cases s)
  case Nil
  then show ?thesis by (simp add: trim_def)
next
  case (Cons a as)
  assume ns: "\<forall>c\<in>set s. \<not> isWhiteSpace c"
  then have "dropWhile isWhiteSpace s = s" using Cons by simp
  moreover have "dropWhile isWhiteSpace (rev s) = rev s"
    using ns by (cases "rev s") (auto simp: dropWhile_eq_self_iff hd_rev last_in_set)
  ultimately show ?thesis by (simp add: trim_def)
qed

lemma isWhiteSpace_space: "isWhiteSpace 0x20"
  by (simp add: isWhiteSpace_def)

lemma lastIndexFrom_absent: "c \<notin> set s \<Longrightarrow> lastIndexFrom c s k = - 1"
proof (induction k)
  case 0
  then show ?case by (cases s) auto
next
  case (Suc k)
  then show ?case by (auto dest: nth_mem)
qed

lemma lastIndexOf_absent: "c \<notin> set s \<Longrightarrow> lastIndexOf s c pos = - 1"
  by (simp add: lastIndexOf_def lastIndexFrom_absent)

lemma lastIndexFrom_first:
  "s \<noteq> [] \<Longrightarrow> s ! 0 = c \<Longrightarrow> \<forall>i. 0 < i \<and> i \<le> k \<longrightarrow> s ! i \<noteq> c \<Longrightarrow> lastIndexFrom c s k = 0"
  by (induction k) auto

section \<open>Texts without delimiters\<close>

lemma sentenceAlt_no_delim: "\<forall>c\<in>set s. \<not> isDelim c \<Longrightarrow> sentenceAlt j s = None"
proof (induction j)
  case 0
  show ?case by simp
next
  case (Suc j)
  have "\<forall>c\<in>set (drop (Suc j) s). \<not> isDelim c"
    using Suc.prems by (meson in_set_dropD)
  then have "takeWhile isDelim (drop (Suc j) s) = []"
    by (cases "drop (Suc j) s") auto
  then show ?case using Suc by simp
qed

lemma trailingAlt_whole: "s \<noteq> [] \<Longrightarrow> trailingAlt (length s) s = Some (length s)"
  by (cases s) auto

lemma matchHere_no_delim:
  assumes "s \<noteq> []" and "\<forall>c\<in>set s. \<not> isDelim c"
  shows "matchHere s = Some (length s)"
proof -
  have run: "takeWhile (\<lambda>c. \<not> isDelim c) s = s"
    using assms(2) by (simp add: takeWhile_eq_all_conv)
  show ?thesis
    unfolding matchHere_def run Let_def
    using assms by (simp add: sentenceAlt_no_delim trailingAlt_whole)
qed

lemma matchAll_Nil: "matchAll [] = []"
  by (simp add: matchAll.simps)

lemma matchAll_no_delim:
  assumes "s \<noteq> []" and "\<forall>c\<in>set s. \<not> isDelim c"
  shows "matchAll s = [s]"
proof -
  have "max 1 (length s) = length s" using assms(1) by (cases s) simp_all
  then show ?thesis
    using assms by (subst matchAll.simps) (simp add: matchHere_no_delim matchAll_Nil)
qed

lemma rawSentences_no_delim: "\<forall>c\<in>set s. \<not> isDelim c \<Longrightarrow> rawSentences s = [s]"
  by (cases "s = []") (simp_all add: rawSentences_def matchAll_Nil matchAll_no_delim)

section \<open>The hard split\<close>

lemma hardSplit_cut:
  assumes "0x20 \<notin> set r" and "MAX_CHAR_LIMIT < length r"
  shows "hardSplit chunks cur r =
         hardSplit (chunks @ [trim (take MAX_CHAR_LIMIT r)]) cur (drop MAX_CHAR_LIMIT r)"
proof -
  have "r \<noteq> []" and "\<not> length r \<le> MAX_CHAR_LIMIT" using assms(2) by auto
  then show ?thesis
    using assms(1) by (subst hardSplit.simps) (simp add: lastIndexOf_absent)
qed

lemma hardSplit_done:
  "0 < length r \<Longrightarrow> length r \<le> MAX_CHAR_LIMIT \<Longrightarrow> hardSplit chunks cur r = Some (chunks, r)"
  by (subst hardSplit.simps) simp

lemma hardSplit_stuck_aux:
  assumes run: "hardSplit chunks cur r = Some y"
  shows "MAX_CHAR_LIMIT < length r \<Longrightarrow> lastIndexOf r 0x20 MAX_CHAR_LIMIT = 0 \<Longrightarrow> False"
proof (induction rule: hardSplit.raw_induct [OF _ run])
  case (1 f chunks cur r y)
  have "r \<noteq> []" and "\<not> length r \<le> MAX_CHAR_LIMIT" using "1.prems"(1) by auto
  with "1.prems"(2) "1.hyps" have "f (chunks @ [trim []]) cur r = Some y"
    by (simp add: Let_def)
  then show ?case using "1.IH" "1.prems" by blast
qed

lemma hardSplit_stuck:
  "MAX_CHAR_LIMIT < length r \<Longrightarrow> lastIndexOf r 0x20 MAX_CHAR_LIMIT = 0 \<Longrightarrow>
   hardSplit chunks cur r = None"
  using hardSplit_stuck_aux by (cases "hardSplit chunks cur r") auto

lemma run_split:
  assumes run: "\<forall>c\<in>set text. \<not> isWhiteSpace c \<and> \<not> isDelim c"
    and long: "MAX_CHAR_LIMIT < length text" and two: "length text \<le> 2 * MAX_CHAR_LIMIT"
  shows "chunkText text = Some [take MAX_CHAR_LIMIT text, drop MAX_CHAR_LIMIT text]"
proof -
  have units: "rawSentences text = [text]" using run by (simp add: rawSentences_no_delim)
  have nosp: "0x20 \<notin> set text" using run isWhiteSpace_space by blast
  have t1: "trim (take MAX_CHAR_LIMIT text) = take MAX_CHAR_LIMIT text"
    using run by (intro trim_no_space) (meson in_set_takeD)
  have t2: "trim (drop MAX_CHAR_LIMIT text) = drop MAX_CHAR_LIMIT text"
    using run by (intro trim_no_space) (meson in_set_dropD)
  have rest: "0 < length (drop MAX_CHAR_LIMIT text)" "length (drop MAX_CHAR_LIMIT text) \<le> MAX_CHAR_LIMIT"
    using long two by simp_all
  have "hardSplit [] [] text = hardSplit [take MAX_CHAR_LIMIT text] [] (drop MAX_CHAR_LIMIT text)"
    using hardSplit_cut [OF nosp long, of "[]" "[]"] t1 by simp
  also have "\<dots> = Some ([take MAX_CHAR_LIMIT text], drop MAX_CHAR_LIMIT text)"
    using rest by (rule hardSplit_done)
  finally have "sentenceLoop [text] [] [] = Some ([take MAX_CHAR_LIMIT text], drop MAX_CHAR_LIMIT text)"
    using long by simp
  moreover have "drop MAX_CHAR_LIMIT text \<noteq> []" using rest(1) by simp
  ultimately show ?thesis by (simp add: chunkText_def units t2)
qed

lemma hardSplit_run:
  "\<forall>c\<in>set r. \<not> isWhiteSpace c \<Longrightarrow> k * MAX_CHAR_LIMIT < length r \<Longrightarrow>
   length r \<le> Suc k * MAX_CHAR_LIMIT \<Longrightarrow>
   hardSplit chunks cur r =
     Some (chunks @ map (\<lambda>i. take MAX_CHAR_LIMIT (drop (i * MAX_CHAR_LIMIT) r)) [0..<k],
           drop (k * MAX_CHAR_LIMIT) r)"
proof (induction k arbitrary: chunks r)
  case 0
  then show ?case using hardSplit_done [of r chunks cur] by simp
next
  case (Suc k)
  let ?r = "drop MAX_CHAR_LIMIT r"
  have nosp: "0x20 \<notin> set r" using Suc.prems(1) isWhiteSpace_space by blast
  have long: "MAX_CHAR_LIMIT < length r" using Suc.prems(2) by simp
  have t: "trim (take MAX_CHAR_LIMIT r) = take MAX_CHAR_LIMIT r"
    using Suc.prems(1) by (intro trim_no_space) (meson in_set_takeD)
  have "\<forall>c\<in>set ?r. \<not> isWhiteSpace c" using Suc.prems(1) by (meson in_set_dropD)
  moreover have "k * MAX_CHAR_LIMIT < length ?r" using Suc.prems(2) by simp
  moreover have "length ?r \<le> Suc k * MAX_CHAR_LIMIT" using Suc.prems(3) by simp
  ultimately have "hardSplit (chunks @ [take MAX_CHAR_LIMIT r]) cur ?r =
     Some ((chunks @ [take MAX_CHAR_LIMIT r]) @
             map (\<lambda>i. take MAX_CHAR_LIMIT (drop (i * MAX_CHAR_LIMIT) ?r)) [0..<k],
           drop (k * MAX_CHAR_LIMIT) ?r)"
    by (rule Suc.IH)
  moreover have "map (\<lambda>i. take MAX_CHAR_LIMIT (drop (i * MAX_CHAR_LIMIT) r)) [0..<Suc k] =
      take MAX_CHAR_LIMIT r # map (\<lambda>i. take MAX_CHAR_LIMIT (drop (i * MAX_CHAR_LIMIT) ?r)) [0..<k]"
    by (simp only: map_upt_Suc) (simp add: add.commute)
  moreover have "drop (k * MAX_CHAR_LIMIT) ?r = drop (Suc k * MAX_CHAR_LIMIT) r"
    by (simp add: add.commute)
  ultimately show ?case using hardSplit_cut [OF nosp long, of chunks cur] t by simp
qed

lemma run_pieces:
  assumes run: "\<forall>c\<in>set text. \<not> isWhiteSpace c \<and> \<not> isDelim c"
    and k: "0 < k" "k * MAX_CHAR_LIMIT < length text" "length text \<le> Suc k * MAX_CHAR_LIMIT"
  shows "chunkText text =
    Some (map (\<lambda>i. take MAX_CHAR_LIMIT (drop (i * MAX_CHAR_LIMIT) text)) [0..<k]
          @ [drop (k * MAX_CHAR_LIMIT) text])"
proof -
  have units: "rawSentences text = [text]" using run by (simp add: rawSentences_no_delim)
  have long: "MAX_CHAR_LIMIT < length text"
  proof -
    have "MAX_CHAR_LIMIT \<le> k * MAX_CHAR_LIMIT" using k(1) by simp
    then show ?thesis using k(2) by linarith
  qed
  have t: "trim (drop (k * MAX_CHAR_LIMIT) text) = drop (k * MAX_CHAR_LIMIT) text"
    using run by (intro trim_no_space) (meson in_set_dropD)
  have ne: "drop (k * MAX_CHAR_LIMIT) text \<noteq> []" using k(2) by simp
  have "hardSplit [] [] text =
     Some ([] @ map (\<lambda>i. take MAX_CHAR_LIMIT (drop (i * MAX_CHAR_LIMIT) text)) [0..<k],
           drop (k * MAX_CHAR_LIMIT) text)"
    using run k(2,3) by (intro hardSplit_run) auto
  then have "sentenceLoop [text] [] [] =
     Some (map (\<lambda>i. take MAX_CHAR_LIMIT (drop (i * MAX_CHAR_LIMIT) text)) [0..<k],
           drop (k * MAX_CHAR_LIMIT) text)"
    using long by simp
  then show ?thesis using ne by (simp add: chunkText_def units t)
qed

lemma trim_letters: "trim (replicate n 0x61) = replicate n 0x61"
  by (rule trim_no_space) (simp add: isWhiteSpace_def)

lemma three_segments:
  "chunkText (replicate 7000 0x61) = Some [replicate 3000 0x61, replicate 3000 0x61, replicate 1000 0x61]"
proof -
  have "[0..<2] = [0, Suc 0]" by (simp add: upt_rec)
  then show ?thesis
    using run_pieces [of "replicate 7000 0x61" 2]
    by (simp add: isWhiteSpace_def isDelim_def MAX_CHAR_LIMIT_def)
qed

lemma within_snoc: "within chunks \<Longrightarrow> length c \<le> MAX_CHAR_LIMIT \<Longrightarrow> within (chunks @ [c])"
  by (simp add: within_def)

section \<open>The budget of the segments\<close>

lemma breakIndex_piece:
  "length (trim (take (nat (if lastIndexOf r c MAX_CHAR_LIMIT = - 1 then int MAX_CHAR_LIMIT
                            else lastIndexOf r c MAX_CHAR_LIMIT)) r)) \<le> MAX_CHAR_LIMIT"
proof -
  let ?b = "if lastIndexOf r c MAX_CHAR_LIMIT = - 1 then int MAX_CHAR_LIMIT
            else lastIndexOf r c MAX_CHAR_LIMIT"
  have "?b \<le> int MAX_CHAR_LIMIT" using lastIndexOf_range [of r c MAX_CHAR_LIMIT] by simp
  then have "nat ?b \<le> MAX_CHAR_LIMIT" by linarith
  moreover have "length (trim (take (nat ?b) r)) \<le> length (take (nat ?b) r)"
    by (rule length_trim_le)
  ultimately show ?thesis by simp
qed

lemma hardSplit_within_aux:
  assumes run: "hardSplit chunks cur r = Some y"
  shows "within chunks \<Longrightarrow> length cur \<le> MAX_CHAR_LIMIT \<Longrightarrow>
   within (fst y) \<and> length (snd y) \<le> MAX_CHAR_LIMIT"
proof (induction rule: hardSplit.raw_induct [OF _ run])
  case (1 f chunks cur r y)
  show ?case
  proof (cases "0 < length r \<and> \<not> length r \<le> MAX_CHAR_LIMIT")
    case True
    let ?b = "if lastIndexOf r 0x20 MAX_CHAR_LIMIT = - 1 then int MAX_CHAR_LIMIT
              else lastIndexOf r 0x20 MAX_CHAR_LIMIT"
    from True "1.hyps"
    have call: "f (chunks @ [trim (take (nat ?b) r)]) cur (drop (nat ?b) r) = Some y"
      by (simp add: Let_def)
    have "within (chunks @ [trim (take (nat ?b) r)])"
      using "1.prems"(1) breakIndex_piece by (rule within_snoc)
    then show ?thesis using "1.IH" [OF call] "1.prems"(2) by blast
  next
    case False
    with "1.hyps" "1.prems" show ?thesis by (auto split: if_splits)
  qed
qed

lemma hardSplit_within:
  "hardSplit chunks cur r = Some (chunks', cur') \<Longrightarrow> within chunks \<Longrightarrow>
   length cur \<le> MAX_CHAR_LIMIT \<Longrightarrow> within chunks' \<and> length cur' \<le> MAX_CHAR_LIMIT"
  using hardSplit_within_aux [of chunks cur r "(chunks', cur')"] by simp

lemma sentenceLoop_within:
  "sentenceLoop units chunks cur = Some (chunks', cur') \<Longrightarrow> within chunks \<Longrightarrow>
   length cur \<le> MAX_CHAR_LIMIT \<Longrightarrow> within chunks' \<and> length cur' \<le> MAX_CHAR_LIMIT"
proof (induction units arbitrary: chunks cur)
  case Nil
  then show ?case by simp
next
  case (Cons u units)
  have "length (trim cur) \<le> MAX_CHAR_LIMIT"
    using length_trim_le [of cur] Cons.prems(3) by linarith
  with Cons.prems(2) have flush: "within (chunks @ [trim cur])"
    by (rule within_snoc)
  show ?case
  proof (cases "MAX_CHAR_LIMIT < length u")
    case True
    let ?h = "if cur \<noteq> [] then hardSplit (chunks @ [trim cur]) [] u else hardSplit chunks cur u"
    from True Cons.prems(1) obtain c1 k1 where h: "?h = Some (c1, k1)"
      and rest: "sentenceLoop units c1 k1 = Some (chunks', cur')"
      by (auto split: option.splits if_splits)
    have "within c1 \<and> length k1 \<le> MAX_CHAR_LIMIT"
    proof (cases "cur \<noteq> []")
      case True
      with h have "hardSplit (chunks @ [trim cur]) [] u = Some (c1, k1)" by simp
      then show ?thesis using flush by (rule hardSplit_within) simp
    next
      case False
      with h have "hardSplit chunks cur u = Some (c1, k1)" by simp
      then show ?thesis using Cons.prems(2,3) by (rule hardSplit_within)
    qed
    then show ?thesis using Cons.IH [OF rest] by blast
  next
    case False
    note small = this
    show ?thesis
    proof (cases "length (cur @ u) \<le> MAX_CHAR_LIMIT")
      case True
      with small Cons.prems(1) have "sentenceLoop units chunks (cur @ u) = Some (chunks', cur')"
        by simp
      then show ?thesis using Cons.IH Cons.prems(2) True by blast
    next
      case False
      with small Cons.prems(1) have "sentenceLoop units (chunks @ [trim cur]) u = Some (chunks', cur')"
        by simp
      then show ?thesis using Cons.IH flush small by (meson not_less)
    qed
  qed
qed

text \<open>
  C1. Whenever \<open>chunkText\<close> returns, every segment of the list it returns is at most
  \<open>MAX_CHAR_LIMIT = 3000\<close> code units long.
\<close>

theorem chunkText_budget:
  assumes "chunkText text = Some segments"
  shows "\<forall>segment\<in>set segments. length segment \<le> MAX_CHAR_LIMIT"
proof -
  from assms obtain chunks cur where loop: "sentenceLoop (rawSentences text) [] [] = Some (chunks, cur)"
    and segs: "segments = (if trim cur \<noteq> [] then chunks @ [trim cur] else chunks)"
    by (auto simp: chunkText_def split: option.splits)
  have "within [] " by (simp add: within_def)
  with loop have inv: "within chunks \<and> length cur \<le> MAX_CHAR_LIMIT"
    by (rule sentenceLoop_within) simp
  then have "length (trim cur) \<le> MAX_CHAR_LIMIT" using length_trim_le [of cur] by linarith
  with inv segs show ?thesis by (auto simp: within_def)
qed


theorem chunkText_budget_witness:
  "chunkText (replicate 5000 0x61) = Some [replicate 3000 0x61, replicate 2000 0x61] \<and>
   length (replicate 3000 (0x61 :: code_unit)) \<le> MAX_CHAR_LIMIT \<and>
   length (replicate 2000 (0x61 :: code_unit)) \<le> MAX_CHAR_LIMIT"
proof -
  have h: "chunkText (replicate 5000 0x61) = Some [replicate 3000 0x61, replicate 2000 0x61]"
    using run_split [of "replicate 5000 0x61"]
    by (simp add: isWhiteSpace_def isDelim_def MAX_CHAR_LIMIT_def)
  from chunkText_budget [OF h]
  have "length (replicate 3000 (0x61 :: code_unit)) \<le> MAX_CHAR_LIMIT"
    and "length (replicate 2000 (0x61 :: code_unit)) \<le> MAX_CHAR_LIMIT"
    by simp_all
  with h show ?thesis by (intro conjI)
qed

section \<open>What the splitting expression leaves out\<close>

text \<open>
  Behind the splitting step only white space is lost: the segments hold, in order, exactly
  the code units of the units that are not white space. What the units do not cover is
  not in the segments either.
\<close>

lemma visible_append: "visible (a @ b) = visible a @ visible b"
  by (simp add: visible_def)

lemma visible_dropWhile: "visible (dropWhile isWhiteSpace s) = visible s"
  by (induction s) (simp_all add: visible_def)

lemma visible_rev: "visible (rev s) = rev (visible s)"
  by (simp add: visible_def rev_filter)

lemma visible_trim: "visible (trim s) = visible s"
  by (simp add: trim_def visible_rev visible_dropWhile)

lemma visible_take_drop: "visible (take n s) @ visible (drop n s) = visible s"
  by (simp add: visible_append [symmetric])

lemma hardSplit_visible:
  assumes run: "hardSplit chunks cur r = Some y"
  shows "r \<noteq> [] \<Longrightarrow> visible (concat (fst y) @ snd y) = visible (concat chunks @ r)"
proof (induction rule: hardSplit.raw_induct [OF _ run])
  case (1 f chunks cur r y)
  show ?case
  proof (cases "length r \<le> MAX_CHAR_LIMIT")
    case True
    with "1.hyps" "1.prems" show ?thesis by auto
  next
    case False
    let ?b = "if lastIndexOf r 0x20 MAX_CHAR_LIMIT = - 1 then int MAX_CHAR_LIMIT
              else lastIndexOf r 0x20 MAX_CHAR_LIMIT"
    from False "1.prems" "1.hyps"
    have call: "f (chunks @ [trim (take (nat ?b) r)]) cur (drop (nat ?b) r) = Some y"
      by (simp add: Let_def)
    have "?b \<le> int MAX_CHAR_LIMIT" using lastIndexOf_range [of r "0x20" MAX_CHAR_LIMIT] by simp
    then have "nat ?b < length r" using False by linarith
    then have "drop (nat ?b) r \<noteq> []" by simp
    from "1.IH" [OF call this]
    have "visible (concat (fst y) @ snd y)
            = visible (concat (chunks @ [trim (take (nat ?b) r)]) @ drop (nat ?b) r)" .
    also have "\<dots> = visible (concat chunks) @ visible (take (nat ?b) r) @ visible (drop (nat ?b) r)"
      by (simp only: concat_append concat.simps append_Nil2 append_assoc visible_append visible_trim)
    also have "\<dots> = visible (concat chunks @ r)"
      by (simp only: visible_take_drop visible_append)
    finally show ?thesis .
  qed
qed

lemma sentenceLoop_visible:
  "sentenceLoop units chunks cur = Some (chunks', cur') \<Longrightarrow>
   visible (concat chunks' @ cur') = visible (concat chunks @ cur @ concat units)"
proof (induction units arbitrary: chunks cur)
  case Nil
  then show ?case by simp
next
  case (Cons u units)
  show ?case
  proof (cases "MAX_CHAR_LIMIT < length u")
    case True
    then have ne: "u \<noteq> []" by auto
    let ?h = "if cur \<noteq> [] then hardSplit (chunks @ [trim cur]) [] u else hardSplit chunks cur u"
    from True Cons.prems obtain c1 k1 where h: "?h = Some (c1, k1)"
      and rest: "sentenceLoop units c1 k1 = Some (chunks', cur')"
      by (auto split: option.splits if_splits)
    have "visible (concat c1 @ k1) = visible (concat chunks @ cur @ u)"
    proof (cases "cur \<noteq> []")
      case True
      with h have "hardSplit (chunks @ [trim cur]) [] u = Some (c1, k1)" by simp
      from hardSplit_visible [OF this ne] show ?thesis
        by (simp add: visible_append visible_trim)
    next
      case False
      with h have "hardSplit chunks cur u = Some (c1, k1)" by simp
      from hardSplit_visible [OF this ne] False show ?thesis by simp
    qed
    then show ?thesis using Cons.IH [OF rest] by (simp add: visible_append)
  next
    case False
    then show ?thesis
      using Cons.prems Cons.IH
      by (auto simp: visible_append visible_trim split: if_splits)
  qed
qed

lemma chunkText_visible:
  assumes "chunkText text = Some segments"
  shows "visible (concat segments) = visible (concat (rawSentences text))"
proof -
  from assms obtain chunks cur where loop: "sentenceLoop (rawSentences text) [] [] = Some (chunks, cur)"
    and segs: "segments = (if trim cur \<noteq> [] then chunks @ [trim cur] else chunks)"
    by (auto simp: chunkText_def split: option.splits)
  from sentenceLoop_visible [OF loop]
  have inv: "visible (concat chunks @ cur) = visible (concat (rawSentences text))" by simp
  have "visible (concat segments) = visible (concat chunks @ cur)"
  proof (cases "trim cur = []")
    case True
    then have "visible cur = []" using visible_trim [of cur] by (simp add: visible_def)
    with True segs show ?thesis by (simp add: visible_append)
  next
    case False
    with segs show ?thesis by (simp add: visible_append visible_trim)
  qed
  with inv show ?thesis by simp
qed

text \<open>
  C2. The units of the text \<open>Pi is 3.14.\<close> do not reproduce it, and its segments lack
  characters that are not white space: at the first full stop the expression finds
  neither white space nor the end of the text, so nothing matches before \<open>14.\<close>, the only
  unit and the only segment; \<open>Pi is 3.\<close> is in neither.
\<close>

theorem chunkText_drops_text:
  "rawSentences [0x50, 0x69, 0x20, 0x69, 0x73, 0x20, 0x33, 0x2E, 0x31, 0x34, 0x2E]
     = [[0x31, 0x34, 0x2E]] \<and>
   chunkText [0x50, 0x69, 0x20, 0x69, 0x73, 0x20, 0x33, 0x2E, 0x31, 0x34, 0x2E]
     = Some [[0x31, 0x34, 0x2E]]"
  by code_simp

section \<open>A hard split that never ends\<close>

text \<open>
  C3. A space followed by 3001 letters \<open>a\<close> is one unit of 3002 code units. The last space
  at or before index 3000 is at index 0, so the hard split pushes an empty chunk and
  keeps the whole unit as the remainder, again and again: \<open>chunkText\<close> does not return.
\<close>

theorem chunkText_diverges: "chunkText (0x20 # replicate 3001 0x61) = None"
proof -
  let ?s = "0x20 # replicate 3001 (0x61 :: code_unit)"
  have "\<forall>c\<in>set ?s. \<not> isDelim c" by (simp add: isDelim_def)
  then have units: "rawSentences ?s = [?s]" by (rule rawSentences_no_delim)
  have long: "MAX_CHAR_LIMIT < length ?s" by (simp add: MAX_CHAR_LIMIT_def)
  have "\<forall>i. 0 < i \<and> i \<le> MAX_CHAR_LIMIT \<longrightarrow> ?s ! i \<noteq> 0x20"
    by (auto simp: MAX_CHAR_LIMIT_def nth_Cons split: nat.splits)
  then have "lastIndexFrom 0x20 ?s MAX_CHAR_LIMIT = 0"
    by (intro lastIndexFrom_first) simp_all
  then have "lastIndexOf ?s 0x20 MAX_CHAR_LIMIT = 0"
    by (simp add: lastIndexOf_def MAX_CHAR_LIMIT_def)
  with long have "hardSplit [] [] ?s = None" by (rule hardSplit_stuck)
  then have "sentenceLoop [?s] [] [] = None" using long by simp
  then show ?thesis by (simp add: chunkText_def units)
qed

section \<open>Texts within the budget\<close>

lemma sentenceLoop_fits:
  "length cur + length (concat units) \<le> MAX_CHAR_LIMIT \<Longrightarrow>
   sentenceLoop units chunks cur = Some (chunks, cur @ concat units)"
  by (induction units arbitrary: cur) auto

lemma short_text:
  assumes "length text \<le> MAX_CHAR_LIMIT" and "concat (rawSentences text) = text"
  shows "chunkText text = Some (if trim text = [] then [] else [trim text])"
proof -
  have "sentenceLoop (rawSentences text) [] [] = Some ([], [] @ concat (rawSentences text))"
    by (rule sentenceLoop_fits) (simp add: assms)
  then show ?thesis by (simp add: chunkText_def assms(2))
qed

text \<open>
  C8, as the claim states it, fails at the empty text: \<open>chunkText\<close> returns no segment
  there, not one empty segment.
\<close>

theorem chunkText_empty_counterexample:
  "length ([] :: jsstring) \<le> MAX_CHAR_LIMIT \<and> chunkText [] = Some [] \<and>
   chunkText [] \<noteq> Some [trim []]"
  by code_simp

text \<open>
  C8, amended. For a text of at most 3000 code units that the units of the splitting step
  reproduce, \<open>chunkText\<close> returns the trimmed text as its one segment when the trimmed text
  is not empty, and no segment when it is.
\<close>

theorem chunkText_short:
  assumes "length text \<le> MAX_CHAR_LIMIT" and "concat (rawSentences text) = text"
  shows "chunkText text = Some (if trim text = [] then [] else [trim text])"
  using assms by (rule short_text)

theorem chunkText_short_witness:
  "length [0x48, 0x69, 0x2E, 0x20, 0x59, 0x6F :: code_unit] \<le> MAX_CHAR_LIMIT \<and>
   concat (rawSentences [0x48, 0x69, 0x2E, 0x20, 0x59, 0x6F]) = [0x48, 0x69, 0x2E, 0x20, 0x59, 0x6F] \<and>
   chunkText [0x48, 0x69, 0x2E, 0x20, 0x59, 0x6F] = Some [[0x48, 0x69, 0x2E, 0x20, 0x59, 0x6F]]"
proof -
  have len: "length [0x48, 0x69, 0x2E, 0x20, 0x59, 0x6F :: code_unit] \<le> MAX_CHAR_LIMIT"
    by (simp add: MAX_CHAR_LIMIT_def)
  have units: "concat (rawSentences [0x48, 0x69, 0x2E, 0x20, 0x59, 0x6F])
                 = [0x48, 0x69, 0x2E, 0x20, 0x59, 0x6F]"
    by code_simp
  have "trim [0x48, 0x69, 0x2E, 0x20, 0x59, 0x6F] = [0x48, 0x69, 0x2E, 0x20, 0x59, 0x6F]"
    by code_simp
  then show ?thesis using len units chunkText_short [OF len units] by simp
qed

section \<open>One run of characters\<close>

text \<open>
  A run without white space and without delimiters is one unit, and the hard split cuts it
  at every 3000 code units (\<open>run_split\<close>, \<open>run_pieces\<close>): 5000 letters \<open>a\<close> come back as
  3000 and 2000.
\<close>

lemma five_thousand_letters:
  "chunkText (replicate 5000 0x61) = Some [replicate 3000 0x61, replicate 2000 0x61]"
  using run_split [of "replicate 5000 0x61"]
  by (simp add: isWhiteSpace_def isDelim_def MAX_CHAR_LIMIT_def)






section \<open>Reassembly\<close>

lemma setAt_fits:
  "offset + length source \<le> length target \<Longrightarrow>
   setAt target source offset = Inr (take offset target @ source @ drop (offset + length source) target)"
  by (simp add: setAt_def)

lemma copyLoop_concat:
  "offset + length (concat cs) \<le> length buf \<Longrightarrow>
   copyLoop cs buf offset = Inr (take offset buf @ concat cs @ drop (offset + length (concat cs)) buf)"
proof (induction cs arbitrary: buf offset)
  case Nil
  then show ?case by simp
next
  case (Cons c cs)
  let ?buf = "take offset buf @ c @ drop (offset + length c) buf"
  have fit: "offset + length c \<le> length buf" using Cons.prems by simp
  then have step: "setAt buf c offset = Inr ?buf" by (rule setAt_fits)
  have len: "length ?buf = length buf" using fit by simp
  have "(offset + length c) + length (concat cs) \<le> length ?buf"
    using Cons.prems len by simp
  then have "copyLoop cs ?buf (offset + length c) =
    Inr (take (offset + length c) ?buf @ concat cs @ drop (offset + length c + length (concat cs)) ?buf)"
    by (rule Cons.IH)
  moreover have "take (offset + length c) ?buf = take offset buf @ c"
    using fit by simp
  moreover have "drop (offset + length c + length (concat cs)) ?buf
     = drop (offset + length (concat (c # cs))) buf"
    using fit by (simp add: ac_simps)
  ultimately show ?case using step by simp
qed

lemma copyLoop_whole:
  "copyLoop cs (replicate (length (concat cs)) 0) 0 = Inr (concat cs)"
  using copyLoop_concat [of 0 cs "replicate (length (concat cs)) 0"] by simp

lemma concat_slice:
  "i < length ps \<Longrightarrow>
   take (length (ps ! i)) (drop (length (concat (take i ps))) (concat ps)) = ps ! i"
proof (induction ps arbitrary: i)
  case Nil
  then show ?case by simp
next
  case (Cons p ps)
  then show ?case by (cases i) simp_all
qed

section \<open>The synthesis loop\<close>

lemma chunkLoop_rejected:
  "trim c \<noteq> [] \<Longrightarrow> gen (service w) v c = (Rejected, sv) \<Longrightarrow>
   chunkLoop gen dec v (c # rest) ac n w =
     (Inl ServiceFailure, \<lparr>service = sv, calls = calls w @ [(c, Rejected)]\<rparr>)"
  by simp

lemma chunkLoop_undecodable:
  "trim c \<noteq> [] \<Longrightarrow> gen (service w) v c = (r, sv) \<Longrightarrow> undecodable dec r \<Longrightarrow>
   chunkLoop gen dec v (c # rest) ac n w =
     (Inl DecodeFailure, \<lparr>service = sv, calls = calls w @ [(c, r)]\<rparr>)"
  by (auto simp: undecodable_def)

lemma chunkLoop_continue:
  "trim c \<noteq> [] \<Longrightarrow> gen (service w) v c = (r, sv) \<Longrightarrow> r \<noteq> Rejected \<Longrightarrow> \<not> undecodable dec r \<Longrightarrow>
   chunkLoop gen dec v (c # rest) ac n w =
     chunkLoop gen dec v rest (ac @ payloadOf dec r) (n + length (concat (payloadOf dec r)))
       \<lparr>service = sv, calls = calls w @ [(c, r)]\<rparr>"
  by (cases r) (auto simp: undecodable_def Let_def split: option.splits)

lemma chunkLoop_blank:
  "trim b = [] \<Longrightarrow> chunkLoop gen dec v (xs @ b # ys) ac n w = chunkLoop gen dec v (xs @ ys) ac n w"
  by (induction xs arbitrary: ac n w) (auto simp: Let_def split: prod.splits generated.splits option.splits)

lemma payloads_Cons: "payloads dec (e # log) = payloadOf dec (snd e) @ payloads dec log"
  by (simp add: payloads_def)

lemma payloads_Nil: "payloads dec [] = []"
  by (simp add: payloads_def)

lemma chunkLoop_log:
  "chunkLoop gen dec v segs ac n w = (res, w') \<Longrightarrow>
   \<exists>new. calls w' = calls w @ new
     \<and> map fst new = take (length new) (filter (\<lambda>c. trim c \<noteq> []) segs)
     \<and> (\<forall>i<length new. snd (new ! i) = Rejected \<longrightarrow> Suc i = length new \<and> res = Inl ServiceFailure)
     \<and> (\<forall>ac' n'. res = Inr (ac', n') \<longrightarrow>
           ac' = ac @ payloads dec new \<and> n' = n + length (concat (payloads dec new))
           \<and> length new = length (filter (\<lambda>c. trim c \<noteq> []) segs))
     \<and> (\<forall>e. res = Inl e \<longrightarrow> new \<noteq> [] \<and> (snd (last new) = Rejected \<or> undecodable dec (snd (last new))))"
proof (induction segs arbitrary: ac n w)
  case Nil
  then show ?case by (auto simp: payloads_Nil)
next
  case (Cons c rest)
  show ?case
  proof (cases "trim c = []")
    case True
    with Cons.prems have "chunkLoop gen dec v rest ac n w = (res, w')" by simp
    from Cons.IH [OF this] True show ?thesis by simp
  next
    case False
    obtain r sv where g: "gen (service w) v c = (r, sv)" by (cases "gen (service w) v c")
    let ?w = "\<lparr>service = sv, calls = calls w @ [(c, r)]\<rparr>"
    show ?thesis
    proof (cases "r = Rejected \<or> undecodable dec r")
      case True
      then have "chunkLoop gen dec v (c # rest) ac n w
                  = (if r = Rejected then Inl ServiceFailure else Inl DecodeFailure, ?w)"
        using False g chunkLoop_rejected [of c gen w v sv] chunkLoop_undecodable [of c gen w v r sv]
        by auto
      with Cons.prems have res: "res = (if r = Rejected then Inl ServiceFailure else Inl DecodeFailure)"
        and w': "w' = ?w" by simp_all
      show ?thesis
        using True False res w' by (intro exI [of _ "[(c, r)]"]) auto
    next
      case go: False
      then have "chunkLoop gen dec v (c # rest) ac n w =
        chunkLoop gen dec v rest (ac @ payloadOf dec r) (n + length (concat (payloadOf dec r))) ?w"
        using False g by (intro chunkLoop_continue) auto
      with Cons.prems have
        "chunkLoop gen dec v rest (ac @ payloadOf dec r) (n + length (concat (payloadOf dec r))) ?w = (res, w')"
        by simp
      from Cons.IH [OF this] obtain new where
        c1: "calls w' = calls ?w @ new"
        and c2: "map fst new = take (length new) (filter (\<lambda>c. trim c \<noteq> []) rest)"
        and c3: "\<forall>i<length new. snd (new ! i) = Rejected \<longrightarrow> Suc i = length new \<and> res = Inl ServiceFailure"
        and c4: "\<forall>ac' n'. res = Inr (ac', n') \<longrightarrow>
           ac' = (ac @ payloadOf dec r) @ payloads dec new
           \<and> n' = (n + length (concat (payloadOf dec r))) + length (concat (payloads dec new))
           \<and> length new = length (filter (\<lambda>c. trim c \<noteq> []) rest)"
        and c5: "\<forall>e. res = Inl e \<longrightarrow> new \<noteq> [] \<and> (snd (last new) = Rejected \<or> undecodable dec (snd (last new)))"
        by blast
      let ?new = "(c, r) # new"
      have "calls w' = calls w @ ?new" using c1 by simp
      moreover have "map fst ?new = take (length ?new) (filter (\<lambda>c. trim c \<noteq> []) (c # rest))"
        using c2 False by simp
      moreover have "\<forall>i<length ?new. snd (?new ! i) = Rejected \<longrightarrow> Suc i = length ?new \<and> res = Inl ServiceFailure"
      proof (intro allI impI)
        fix i assume "i < length ?new" and rej: "snd (?new ! i) = Rejected"
        then show "Suc i = length ?new \<and> res = Inl ServiceFailure"
          using c3 go by (cases i) auto
      qed
      moreover have "\<forall>ac' n'. res = Inr (ac', n') \<longrightarrow>
           ac' = ac @ payloads dec ?new \<and> n' = n + length (concat (payloads dec ?new))
           \<and> length ?new = length (filter (\<lambda>c. trim c \<noteq> []) (c # rest))"
        using c4 False by (auto simp: payloads_Cons)
      moreover have "\<forall>e. res = Inl e \<longrightarrow> ?new \<noteq> [] \<and> (snd (last ?new) = Rejected \<or> undecodable dec (snd (last ?new)))"
        using c5 by simp
      ultimately show ?thesis by blast
    qed
  qed
qed


lemma synthesizeChunks_log:
  assumes "synthesizeChunks gen dec v segs sv = (res, w)"
  shows "map fst (calls w) = take (length (calls w)) (filter (\<lambda>c. trim c \<noteq> []) segs) \<and>
    (\<forall>i<length (calls w). snd (calls w ! i) = Rejected \<longrightarrow>
           Suc i = length (calls w) \<and> res = Inl ServiceFailure) \<and>
    (\<forall>combined. res = Inr combined \<longrightarrow>
           combined = concat (payloads dec (calls w)) \<and> combined \<noteq> []) \<and>
    ((\<forall>e\<in>set (calls w). snd e \<noteq> Rejected \<and> \<not> undecodable dec (snd e)) \<longrightarrow>
           map fst (calls w) = filter (\<lambda>c. trim c \<noteq> []) segs \<and>
           res = (if concat (payloads dec (calls w)) = [] then Inl NoAudioContent
                  else Inr (concat (payloads dec (calls w)))))"
proof -
  obtain r0 w0 where loop: "chunkLoop gen dec v segs [] 0 \<lparr>service = sv, calls = []\<rparr> = (r0, w0)"
    by (cases "chunkLoop gen dec v segs [] 0 \<lparr>service = sv, calls = []\<rparr>")
  from chunkLoop_log [OF loop] have
    c2: "map fst (calls w0) = take (length (calls w0)) (filter (\<lambda>c. trim c \<noteq> []) segs)"
    and c3: "\<forall>i<length (calls w0). snd (calls w0 ! i) = Rejected \<longrightarrow>
               Suc i = length (calls w0) \<and> r0 = Inl ServiceFailure"
    and c4: "\<forall>ac' n'. r0 = Inr (ac', n') \<longrightarrow>
               ac' = payloads dec (calls w0) \<and> n' = length (concat (payloads dec (calls w0)))
               \<and> length (calls w0) = length (filter (\<lambda>c. trim c \<noteq> []) segs)"
    and c5: "\<forall>e. r0 = Inl e \<longrightarrow> calls w0 \<noteq> [] \<and>
               (snd (last (calls w0)) = Rejected \<or> undecodable dec (snd (last (calls w0))))"
    by auto
  show ?thesis
  proof (cases r0)
    case (Inl e)
    with assms loop have eq: "res = Inl e" "w = w0" by (simp_all add: synthesizeChunks_def)
    from c5 Inl have ne: "calls w0 \<noteq> []"
      and bad: "snd (last (calls w0)) = Rejected \<or> undecodable dec (snd (last (calls w0)))" by auto
    from ne have "last (calls w0) \<in> set (calls w0)" by simp
    with bad have "\<not> (\<forall>e\<in>set (calls w0). snd e \<noteq> Rejected \<and> \<not> undecodable dec (snd e))" by blast
    then have d: "(\<forall>e\<in>set (calls w). snd e \<noteq> Rejected \<and> \<not> undecodable dec (snd e)) \<longrightarrow>
           map fst (calls w) = filter (\<lambda>c. trim c \<noteq> []) segs \<and>
           res = (if concat (payloads dec (calls w)) = [] then Inl NoAudioContent
                  else Inr (concat (payloads dec (calls w))))"
      using eq(2) by blast
    from eq c3 Inl have b: "\<forall>i<length (calls w). snd (calls w ! i) = Rejected \<longrightarrow>
           Suc i = length (calls w) \<and> res = Inl ServiceFailure" by simp
    from eq(1) have c: "\<forall>combined. res = Inr combined \<longrightarrow>
           combined = concat (payloads dec (calls w)) \<and> combined \<noteq> []" by simp
    from eq(2) c2 have a: "map fst (calls w) = take (length (calls w)) (filter (\<lambda>c. trim c \<noteq> []) segs)"
      by simp
    from a b c d show ?thesis by (intro conjI)
  next
    case (Inr p)
    obtain ac' n' where p: "p = (ac', n')" by (cases p)
    from c4 Inr p have ac: "ac' = payloads dec (calls w0)"
      and n: "n' = length (concat (payloads dec (calls w0)))"
      and all: "length (calls w0) = length (filter (\<lambda>c. trim c \<noteq> []) segs)" by auto
    from c3 Inr have norej: "\<forall>i<length (calls w0). snd (calls w0 ! i) \<noteq> Rejected" by auto
    from assms loop Inr p have w: "w = w0"
      and res: "res = (if n' = 0 then Inl NoAudioContent else copyLoop ac' (replicate n' 0) 0)"
      by (auto simp: synthesizeChunks_def split: if_splits)
    have "copyLoop ac' (replicate n' 0) 0 = Inr (concat ac')"
      unfolding ac n by (rule copyLoop_whole)
    with res ac n have res': "res = (if concat (payloads dec (calls w0)) = [] then Inl NoAudioContent
                  else Inr (concat (payloads dec (calls w0))))" by simp
    then have c: "\<forall>combined. res = Inr combined \<longrightarrow>
           combined = concat (payloads dec (calls w)) \<and> combined \<noteq> []"
      unfolding w by (cases "concat (payloads dec (calls w0)) = []") simp_all
    from c2 all have full: "map fst (calls w) = filter (\<lambda>c. trim c \<noteq> []) segs"
      unfolding w by simp
    from c2 have a: "map fst (calls w) = take (length (calls w)) (filter (\<lambda>c. trim c \<noteq> []) segs)"
      unfolding w .
    from norej have b: "\<forall>i<length (calls w). snd (calls w ! i) = Rejected \<longrightarrow>
           Suc i = length (calls w) \<and> res = Inl ServiceFailure"
      unfolding w by blast
    from full res' have d: "(\<forall>e\<in>set (calls w). snd e \<noteq> Rejected \<and> \<not> undecodable dec (snd e)) \<longrightarrow>
           map fst (calls w) = filter (\<lambda>c. trim c \<noteq> []) segs \<and>
           res = (if concat (payloads dec (calls w)) = [] then Inl NoAudioContent
                  else Inr (concat (payloads dec (calls w))))"
      unfolding w by blast
    from a b c d show ?thesis by (intro conjI)
  qed
qed

lemma generateSpeech_run:
  assumes "generateSpeech gen dec sv text v = Some (res, w)"
  obtains segs r where "chunkText text = Some segs"
    and "synthesizeChunks gen dec v segs sv = (r, w)" and "res = catchAll r"
  using assms by (auto simp: generateSpeech_def split: option.splits prod.splits)

lemma catchAll_Inl: "catchAll (Inl e) = Inl SpeechFailed"
  by (simp add: catchAll_def)

lemma catchAll_Inr: "catchAll r = Inr b \<longleftrightarrow> r = Inr b"
  by (cases r) (simp_all add: catchAll_def)

lemma length_concat_sum: "length (concat xs) = sum_list (map length xs)"
  by (induction xs) simp_all

section \<open>The combined audio\<close>

text \<open>
  C5. When \<open>generateSpeech\<close> returns a buffer, the buffer is the payloads of its calls one
  after the other, in call order and with nothing between them: its length is the sum of
  their lengths, and payload \<open>i\<close> is the range of its own length that starts at the sum of
  the lengths of the payloads before it.
\<close>

theorem generateSpeech_combined:
  assumes "generateSpeech gen dec sv text voiceName = Some (Inr combinedAudio, w)"
  shows "combinedAudio = concat (payloads dec (calls w)) \<and>
         length combinedAudio = sum_list (map length (payloads dec (calls w))) \<and>
         (\<forall>i<length (payloads dec (calls w)).
            take (length (payloads dec (calls w) ! i))
              (drop (sum_list (map length (take i (payloads dec (calls w))))) combinedAudio)
            = payloads dec (calls w) ! i)"
proof -
  from assms obtain segs r where "synthesizeChunks gen dec voiceName segs sv = (r, w)"
    and "Inr combinedAudio = catchAll r" by (rule generateSpeech_run)
  then have "synthesizeChunks gen dec voiceName segs sv = (Inr combinedAudio, w)"
    using catchAll_Inr [of r combinedAudio] by simp
  from synthesizeChunks_log [OF this]
  have eq: "combinedAudio = concat (payloads dec (calls w))" by blast
  show ?thesis
    unfolding eq by (simp add: length_concat_sum [symmetric] concat_slice)
qed

theorem generateSpeech_combined_witness:
  "generateSpeech (\<lambda>n v c. (Resolved (Some (replicate (Suc n) 0x41)), Suc n))
     (\<lambda>b. Some (if length b = 1 then replicate 100 1 else if length b = 2 then replicate 250 2
                 else replicate 50 3))
     (0::nat) (replicate 7000 0x61) []
   = Some (Inr (replicate 100 1 @ replicate 250 2 @ replicate 50 3),
           \<lparr>service = 3,
            calls = [(replicate 3000 0x61, Resolved (Some [0x41])),
                     (replicate 3000 0x61, Resolved (Some [0x41, 0x41])),
                     (replicate 1000 0x61, Resolved (Some [0x41, 0x41, 0x41]))]\<rparr>) \<and>
   length (replicate 100 1 @ replicate 250 2 @ replicate 50 (3 :: 8 word)) = 400 \<and>
   take 100 (drop 0 (replicate 100 1 @ replicate 250 2 @ replicate 50 (3 :: 8 word))) = replicate 100 1 \<and>
   take 250 (drop 100 (replicate 100 1 @ replicate 250 2 @ replicate 50 (3 :: 8 word))) = replicate 250 2 \<and>
   take 50 (drop 350 (replicate 100 1 @ replicate 250 2 @ replicate 50 (3 :: 8 word))) = replicate 50 3"
proof -
  let ?gen = "\<lambda>(n::nat) (v::jsstring) (c::jsstring). (Resolved (Some (replicate (Suc n) 0x41)), Suc n)"
  let ?dec = "\<lambda>b::jsstring. Some (if length b = 1 then replicate 100 1 else if length b = 2 then replicate 250 2
                 else replicate 50 (3 :: 8 word))"
  let ?w = "\<lparr>service = 3::nat,
            calls = [(replicate 3000 0x61, Resolved (Some [0x41])),
                     (replicate 3000 0x61, Resolved (Some [0x41, 0x41])),
                     (replicate 1000 0x61, Resolved (Some [0x41, 0x41, 0x41]))]\<rparr>"
  let ?ps = "[replicate 100 1, replicate 250 2, replicate 50 (3 :: 8 word)]"
  let ?x = "replicate 100 1 @ replicate 250 2 @ replicate 50 (3 :: 8 word)"
  have run: "generateSpeech ?gen ?dec 0 (replicate 7000 0x61) [] = Some (Inr ?x, ?w)"
    by (simp add: generateSpeech_def three_segments synthesizeChunks_def trim_letters
          catchAll_def setAt_def numeral_2_eq_2 numeral_3_eq_3)
  have ps: "payloads ?dec (calls ?w) = ?ps"
    by (simp add: payloads_def)
  note inst = generateSpeech_combined [OF run, unfolded ps]
  from inst have len: "length ?x = sum_list (map length ?ps)" by blast
  from inst have slices: "\<forall>i<length ?ps.
      take (length (?ps ! i)) (drop (sum_list (map length (take i ?ps))) ?x) = ?ps ! i" by blast
  have s0: "take 100 (drop 0 ?x) = replicate 100 1" using slices [rule_format, of 0] by simp
  have s1: "take 250 (drop 100 ?x) = replicate 250 2" using slices [rule_format, of 1] by simp
  have s2: "take 50 (drop 350 ?x) = replicate 50 3" using slices [rule_format, of 2] by simp
  from len have "length ?x = 400" by simp
  with run s0 s1 s2 show ?thesis by (intro conjI)
qed

section \<open>A rejected call\<close>

text \<open>
  C6. When a call of a run is rejected, \<open>generateSpeech\<close> fails, with no buffer; the
  rejected call is the last call of the run, and the calls made are one call for each
  non-blank segment up to the one that was rejected, in order: no segment behind it is
  sent, and none is sent twice.
\<close>

theorem generateSpeech_rejected:
  assumes "chunkText text = Some textChunks"
    and "generateSpeech gen dec sv text voiceName = Some (res, w)"
    and "i < length (calls w)" and "snd (calls w ! i) = Rejected"
  shows "res = Inl SpeechFailed \<and> Suc i = length (calls w) \<and>
         map fst (calls w) = take (Suc i) (filter (\<lambda>chunk. trim chunk \<noteq> []) textChunks)"
proof -
  from assms(2) obtain segs r where segs: "chunkText text = Some segs"
    and run: "synthesizeChunks gen dec voiceName segs sv = (r, w)"
    and res: "res = catchAll r" by (rule generateSpeech_run)
  from segs assms(1) have same: "segs = textChunks" by simp
  from synthesizeChunks_log [OF run] assms(3,4)
  have "Suc i = length (calls w)" and "r = Inl ServiceFailure"
    and "map fst (calls w) = take (length (calls w)) (filter (\<lambda>chunk. trim chunk \<noteq> []) segs)"
    by blast+
  then show ?thesis using res same by (simp add: catchAll_Inl)
qed

theorem generateSpeech_rejected_witness:
  "chunkText (replicate 7000 0x61)
     = Some [replicate 3000 0x61, replicate 3000 0x61, replicate 1000 0x61] \<and>
   generateSpeech (\<lambda>n v c. (if n = 1 then Rejected else Resolved (Some [0x41]), Suc n))
     (\<lambda>b. Some [1, 2]) (0::nat) (replicate 7000 0x61) []
   = Some (Inl SpeechFailed,
           \<lparr>service = 2,
            calls = [(replicate 3000 0x61, Resolved (Some [0x41])),
                     (replicate 3000 0x61, Rejected)]\<rparr>) \<and>
   map fst [(replicate 3000 (0x61 :: code_unit), Resolved (Some [0x41])), (replicate 3000 0x61, Rejected)]
     = take 2 (filter (\<lambda>chunk. trim chunk \<noteq> [])
                  [replicate 3000 0x61, replicate 3000 0x61, replicate 1000 0x61])"
proof -
  let ?gen = "\<lambda>(n::nat) (v::jsstring) (c::jsstring).
                (if n = 1 then Rejected else Resolved (Some [0x41]), Suc n)"
  let ?dec = "\<lambda>b::jsstring. Some [1, 2 :: 8 word]"
  let ?w = "\<lparr>service = 2::nat,
            calls = [(replicate 3000 0x61, Resolved (Some [0x41])),
                     (replicate 3000 0x61, Rejected)]\<rparr>"
  have run: "generateSpeech ?gen ?dec 0 (replicate 7000 0x61) [] = Some (Inl SpeechFailed, ?w)"
    by (simp add: generateSpeech_def three_segments synthesizeChunks_def trim_letters catchAll_def)
  have i: "1 < length (calls ?w)" and rej: "snd (calls ?w ! 1) = Rejected" by simp_all
  from generateSpeech_rejected [OF three_segments run i rej]
  have "map fst (calls ?w) = take (Suc 1) (filter (\<lambda>chunk. trim chunk \<noteq> [])
                  [replicate 3000 0x61, replicate 3000 0x61, replicate 1000 0x61])" by blast
  then have "map fst [(replicate 3000 (0x61 :: code_unit), Resolved (Some [0x41])), (replicate 3000 0x61, Rejected)]
     = take 2 (filter (\<lambda>chunk. trim chunk \<noteq> [])
                  [replicate 3000 0x61, replicate 3000 0x61, replicate 1000 0x61])"
    by (simp only: world.simps numeral_2_eq_2 One_nat_def)
  with three_segments run show ?thesis by (intro conjI)
qed

section \<open>No audio at all\<close>

text \<open>
  C7. When the payloads of all calls of a run together hold no byte, \<open>generateSpeech\<close>
  fails; a buffer it returns is never empty.
\<close>

theorem generateSpeech_never_silent:
  assumes "generateSpeech gen dec sv text voiceName = Some (res, w)"
  shows "(concat (payloads dec (calls w)) = [] \<longrightarrow> res = Inl SpeechFailed) \<and>
         (\<forall>combinedAudio. res = Inr combinedAudio \<longrightarrow> 0 < length combinedAudio)"
proof -
  from assms obtain segs r where run: "synthesizeChunks gen dec voiceName segs sv = (r, w)"
    and res: "res = catchAll r" by (rule generateSpeech_run)
  from synthesizeChunks_log [OF run]
  have inr: "\<forall>combined. r = Inr combined \<longrightarrow>
               combined = concat (payloads dec (calls w)) \<and> combined \<noteq> []" by blast
  have "res = Inl SpeechFailed" if "concat (payloads dec (calls w)) = []"
  proof (cases r)
    case (Inl e)
    then show ?thesis using res by (simp add: catchAll_Inl)
  next
    case (Inr combined)
    then show ?thesis using inr that by blast
  qed
  moreover have "0 < length combinedAudio" if "res = Inr combinedAudio" for combinedAudio
  proof -
    from that res have "r = Inr combinedAudio" using catchAll_Inr [of r combinedAudio] by simp
    then have "combinedAudio \<noteq> []" using inr by blast
    then show ?thesis by simp
  qed
  ultimately show ?thesis by blast
qed

theorem generateSpeech_never_silent_witness:
  "generateSpeech (\<lambda>n v c. (Resolved (Some [0x41]), Suc n)) (\<lambda>b. Some [])
     (0::nat) (replicate 7000 0x61) []
   = Some (Inl SpeechFailed,
           \<lparr>service = 3,
            calls = [(replicate 3000 0x61, Resolved (Some [0x41])),
                     (replicate 3000 0x61, Resolved (Some [0x41])),
                     (replicate 1000 0x61, Resolved (Some [0x41]))]\<rparr>) \<and>
   concat (payloads (\<lambda>b. Some [])
            [(replicate 3000 0x61, Resolved (Some [0x41])),
             (replicate 3000 0x61, Resolved (Some [0x41])),
             (replicate 1000 0x61, Resolved (Some [0x41]))]) = []"
proof -
  let ?gen = "\<lambda>(n::nat) (v::jsstring) (c::jsstring). (Resolved (Some [0x41]), Suc n)"
  let ?dec = "\<lambda>b::jsstring. Some ([] :: bytes)"
  let ?w = "\<lparr>service = 3::nat,
            calls = [(replicate 3000 0x61, Resolved (Some [0x41])),
                     (replicate 3000 0x61, Resolved (Some [0x41])),
                     (replicate 1000 0x61, Resolved (Some [0x41]))]\<rparr>"
  have run: "generateSpeech ?gen ?dec 0 (replicate 7000 0x61) [] = Some (Inl SpeechFailed, ?w)"
    by (simp add: generateSpeech_def three_segments synthesizeChunks_def trim_letters catchAll_def)
  have "concat (payloads ?dec (calls ?w)) = []" by (simp add: payloads_def)
  then show ?thesis using run generateSpeech_never_silent [OF run] by simp
qed

section \<open>Blank segments\<close>

lemma synthesizeChunks_blank:
  "trim b = [] \<Longrightarrow>
   synthesizeChunks gen dec v (xs @ b # ys) sv = synthesizeChunks gen dec v (xs @ ys) sv"
  by (simp add: synthesizeChunks_def chunkLoop_blank)

text \<open>
  C9. A segment that is empty after trimming leaves no trace: the run over a list of
  segments with it is the run over the list without it (same calls, same result), and no
  call of \<open>generateSpeech\<close> carries a text that is empty after trimming.
\<close>

theorem generateSpeech_skips_blank:
  "(trim blank = [] \<longrightarrow>
      synthesizeChunks gen dec voiceName (before @ blank # after) sv
        = synthesizeChunks gen dec voiceName (before @ after) sv) \<and>
   (generateSpeech gen dec sv text voiceName = Some (res, w) \<longrightarrow>
      (\<forall>call\<in>set (calls w). trim (fst call) \<noteq> []))"
proof (intro conjI impI)
  assume "trim blank = []"
  then show "synthesizeChunks gen dec voiceName (before @ blank # after) sv
        = synthesizeChunks gen dec voiceName (before @ after) sv"
    by (rule synthesizeChunks_blank)
next
  assume "generateSpeech gen dec sv text voiceName = Some (res, w)"
  then obtain segs r where run: "synthesizeChunks gen dec voiceName segs sv = (r, w)"
    by (rule generateSpeech_run)
  from synthesizeChunks_log [OF run]
  have "map fst (calls w) = take (length (calls w)) (filter (\<lambda>c. trim c \<noteq> []) segs)" by blast
  moreover have "set (take (length (calls w)) (filter (\<lambda>c. trim c \<noteq> []) segs))
                  \<subseteq> set (filter (\<lambda>c. trim c \<noteq> []) segs)"
    by (rule set_take_subset)
  ultimately have "set (map fst (calls w)) \<subseteq> set (filter (\<lambda>c. trim c \<noteq> []) segs)"
    by simp
  then have "fst ` set (calls w) \<subseteq> {c. trim c \<noteq> []}" by auto
  then show "\<forall>call\<in>set (calls w). trim (fst call) \<noteq> []" by blast
qed

theorem generateSpeech_skips_blank_witness:
  "trim [0x20, 0x0A] = [] \<and>
   synthesizeChunks (\<lambda>n v c. (Resolved (Some [0x41]), Suc n)) (\<lambda>b. Some [7])
       [] ([[0x48]] @ [0x20, 0x0A] # [[0x49]]) (0::nat)
     = synthesizeChunks (\<lambda>n v c. (Resolved (Some [0x41]), Suc n)) (\<lambda>b. Some [7])
       [] ([[0x48]] @ [[0x49]]) 0 \<and>
   generateSpeech (\<lambda>n v c. (Resolved (Some [0x41]), Suc n)) (\<lambda>b. Some [7])
       (0::nat) [0x48, 0x65, 0x6C, 0x6C, 0x6F, 0x2E, 0x0A, 0x0A, 0x0A, 0x57, 0x6F, 0x72, 0x6C, 0x64, 0x2E] []
     = Some (Inr [7],
         \<lparr>service = 1,
          calls = [([0x48, 0x65, 0x6C, 0x6C, 0x6F, 0x2E, 0x0A, 0x0A, 0x0A, 0x57, 0x6F, 0x72, 0x6C, 0x64, 0x2E],
                    Resolved (Some [0x41]))]\<rparr>) \<and>
   trim [0x48, 0x65, 0x6C, 0x6C, 0x6F, 0x2E, 0x0A, 0x0A, 0x0A, 0x57, 0x6F, 0x72, 0x6C, 0x64, 0x2E] \<noteq> []"
proof -
  let ?gen = "\<lambda>(n::nat) (v::jsstring) (c::jsstring). (Resolved (Some [0x41]), Suc n)"
  let ?dec = "\<lambda>b::jsstring. Some [7 :: 8 word]"
  let ?t = "[0x48, 0x65, 0x6C, 0x6C, 0x6F, 0x2E, 0x0A, 0x0A, 0x0A, 0x57, 0x6F, 0x72, 0x6C, 0x64, 0x2E :: code_unit]"
  let ?w = "\<lparr>service = 1::nat, calls = [(?t, Resolved (Some [0x41]))]\<rparr>"
  have blank: "trim [0x20, 0x0A] = []" by code_simp
  have run: "generateSpeech ?gen ?dec 0 ?t [] = Some (Inr [7], ?w)" by code_simp
  note inst = generateSpeech_skips_blank [of "[0x20, 0x0A]" ?gen ?dec "[]" "[[0x48]]" "[[0x49]]" 0 ?t "Inr [7]" ?w]
  from inst blank have "synthesizeChunks ?gen ?dec [] ([[0x48]] @ [0x20, 0x0A] # [[0x49]]) 0
     = synthesizeChunks ?gen ?dec [] ([[0x48]] @ [[0x49]]) 0" by blast
  moreover from inst run have "\<forall>call\<in>set (calls ?w). trim (fst call) \<noteq> []" by blast
  ultimately show ?thesis using blank run by simp
qed

section \<open>Responses without audio\<close>

lemma synthesizeChunks_continues:
  assumes run: "synthesizeChunks gen dec v segs sv = (res, w)"
    and i: "i < length (calls w)"
    and ok: "snd (calls w ! i) \<noteq> Rejected" "\<not> undecodable dec (snd (calls w ! i))"
    and more: "Suc i < length (filter (\<lambda>c. trim c \<noteq> []) segs)"
  shows "Suc i < length (calls w) \<and>
         fst (calls w ! Suc i) = filter (\<lambda>c. trim c \<noteq> []) segs ! Suc i"
proof -
  obtain r0 w0 where loop: "chunkLoop gen dec v segs [] 0 \<lparr>service = sv, calls = []\<rparr> = (r0, w0)"
    by (cases "chunkLoop gen dec v segs [] 0 \<lparr>service = sv, calls = []\<rparr>")
  from chunkLoop_log [OF loop] have
    c2: "map fst (calls w0) = take (length (calls w0)) (filter (\<lambda>c. trim c \<noteq> []) segs)"
    and c4: "\<forall>ac' n'. r0 = Inr (ac', n') \<longrightarrow>
               length (calls w0) = length (filter (\<lambda>c. trim c \<noteq> []) segs)"
    and c5: "\<forall>e. r0 = Inl e \<longrightarrow> calls w0 \<noteq> [] \<and>
               (snd (last (calls w0)) = Rejected \<or> undecodable dec (snd (last (calls w0))))"
    by auto
  have w: "w = w0"
    using run loop by (cases r0) (auto simp: synthesizeChunks_def split: if_splits prod.splits)
  have next_call: "Suc i < length (calls w0)"
  proof (cases r0)
    case (Inl e)
    with c5 have ne: "calls w0 \<noteq> []"
      and bad: "snd (last (calls w0)) = Rejected \<or> undecodable dec (snd (last (calls w0)))"
      by auto
    from ne have "last (calls w0) = calls w0 ! (length (calls w0) - 1)" by (rule last_conv_nth)
    with bad ok w have "i \<noteq> length (calls w0) - 1" by auto
    with i w show ?thesis by simp
  next
    case (Inr p)
    obtain ac' n' where "p = (ac', n')" by (cases p)
    with Inr c4 have "length (calls w0) = length (filter (\<lambda>c. trim c \<noteq> []) segs)" by simp
    with more show ?thesis by simp
  qed
  have "fst (calls w0 ! Suc i) = map fst (calls w0) ! Suc i"
    using next_call by simp
  also have "\<dots> = filter (\<lambda>c. trim c \<noteq> []) segs ! Suc i"
    using next_call by (subst c2) simp
  finally show ?thesis using next_call w by simp
qed

text \<open>
  C10. In a run of \<open>generateSpeech\<close>, a call that resolves without a string, or with an
  empty one, adds no byte and is followed by the call for the next non-blank segment, if
  there is one. When no call of the run was rejected and the decoder accepted every
  string, every non-blank segment was sent and the run fails exactly when the payloads
  together are empty, and returns their concatenation otherwise: only the check of the
  total turns responses without audio into a failure. A rejected call is the last call of
  its run, and the run fails.
\<close>

theorem generateSpeech_empty_response:
  assumes "generateSpeech gen dec sv text voiceName = Some (res, w)"
    and "chunkText text = Some textChunks"
  shows "(\<forall>i<length (calls w).
            (snd (calls w ! i) = Resolved None \<or> snd (calls w ! i) = Resolved (Some [])) \<and>
            Suc i < length (filter (\<lambda>chunk. trim chunk \<noteq> []) textChunks) \<longrightarrow>
            Suc i < length (calls w) \<and>
            fst (calls w ! Suc i) = filter (\<lambda>chunk. trim chunk \<noteq> []) textChunks ! Suc i) \<and>
         ((\<forall>call\<in>set (calls w). snd call \<noteq> Rejected \<and> \<not> undecodable dec (snd call)) \<longrightarrow>
            map fst (calls w) = filter (\<lambda>chunk. trim chunk \<noteq> []) textChunks \<and>
            res = (if concat (payloads dec (calls w)) = [] then Inl SpeechFailed
                   else Inr (concat (payloads dec (calls w))))) \<and>
         (\<forall>i<length (calls w). snd (calls w ! i) = Rejected \<longrightarrow>
            Suc i = length (calls w) \<and> res = Inl SpeechFailed)"
proof -
  from assms(1) obtain segs r where segs: "chunkText text = Some segs"
    and run: "synthesizeChunks gen dec voiceName segs sv = (r, w)"
    and res: "res = catchAll r" by (rule generateSpeech_run)
  from segs assms(2) have same: "segs = textChunks" by simp
  note log = synthesizeChunks_log [OF run, unfolded same]
  have a: "\<forall>i<length (calls w).
            (snd (calls w ! i) = Resolved None \<or> snd (calls w ! i) = Resolved (Some [])) \<and>
            Suc i < length (filter (\<lambda>chunk. trim chunk \<noteq> []) textChunks) \<longrightarrow>
            Suc i < length (calls w) \<and>
            fst (calls w ! Suc i) = filter (\<lambda>chunk. trim chunk \<noteq> []) textChunks ! Suc i"
  proof (intro allI impI)
    fix i
    assume i: "i < length (calls w)"
      and h: "(snd (calls w ! i) = Resolved None \<or> snd (calls w ! i) = Resolved (Some [])) \<and>
            Suc i < length (filter (\<lambda>chunk. trim chunk \<noteq> []) textChunks)"
    from h have "snd (calls w ! i) \<noteq> Rejected" and "\<not> undecodable dec (snd (calls w ! i))"
      by (auto simp: undecodable_def)
    with run i h show "Suc i < length (calls w) \<and>
            fst (calls w ! Suc i) = filter (\<lambda>chunk. trim chunk \<noteq> []) textChunks ! Suc i"
      unfolding same by (intro synthesizeChunks_continues) simp_all
  qed
  have b: "(\<forall>call\<in>set (calls w). snd call \<noteq> Rejected \<and> \<not> undecodable dec (snd call)) \<longrightarrow>
            map fst (calls w) = filter (\<lambda>chunk. trim chunk \<noteq> []) textChunks \<and>
            res = (if concat (payloads dec (calls w)) = [] then Inl SpeechFailed
                   else Inr (concat (payloads dec (calls w))))"
  proof
    assume "\<forall>call\<in>set (calls w). snd call \<noteq> Rejected \<and> \<not> undecodable dec (snd call)"
    with log have m: "map fst (calls w) = filter (\<lambda>chunk. trim chunk \<noteq> []) textChunks"
      and r: "r = (if concat (payloads dec (calls w)) = [] then Inl NoAudioContent
                  else Inr (concat (payloads dec (calls w))))" by blast+
    from r res have "res = (if concat (payloads dec (calls w)) = [] then Inl SpeechFailed
                   else Inr (concat (payloads dec (calls w))))"
      by (simp add: catchAll_def)
    with m show "map fst (calls w) = filter (\<lambda>chunk. trim chunk \<noteq> []) textChunks \<and>
            res = (if concat (payloads dec (calls w)) = [] then Inl SpeechFailed
                   else Inr (concat (payloads dec (calls w))))" by (intro conjI)
  qed
  have c: "\<forall>i<length (calls w). snd (calls w ! i) = Rejected \<longrightarrow>
            Suc i = length (calls w) \<and> res = Inl SpeechFailed"
  proof (intro allI impI)
    fix i assume "i < length (calls w)" and "snd (calls w ! i) = Rejected"
    with log have "Suc i = length (calls w)" and "r = Inl ServiceFailure" by blast+
    then show "Suc i = length (calls w) \<and> res = Inl SpeechFailed"
      using res by (simp add: catchAll_Inl)
  qed
  from a b c show ?thesis by (intro conjI)
qed


theorem generateSpeech_empty_response_witness:
  "chunkText (replicate 7000 0x61)
     = Some [replicate 3000 0x61, replicate 3000 0x61, replicate 1000 0x61] \<and>
   filter (\<lambda>chunk. trim chunk \<noteq> []) [replicate 3000 0x61, replicate 3000 0x61, replicate 1000 0x61]
     = [replicate 3000 0x61, replicate 3000 0x61, replicate 1000 0x61] \<and>
   generateSpeech
     (\<lambda>n v c. (if n = 0 then Resolved None else if n = 1 then Resolved (Some [0x41])
                else Resolved (Some []), Suc n))
     (\<lambda>b. Some [7, 8]) (0::nat) (replicate 7000 0x61) []
   = Some (Inr [7, 8],
           \<lparr>service = 3,
            calls = [(replicate 3000 0x61, Resolved None),
                     (replicate 3000 0x61, Resolved (Some [0x41])),
                     (replicate 1000 0x61, Resolved (Some []))]\<rparr>) \<and>
   concat (payloads (\<lambda>b. Some [7, 8])
            [(replicate 3000 0x61, Resolved None),
             (replicate 3000 0x61, Resolved (Some [0x41])),
             (replicate 1000 0x61, Resolved (Some []))]) = [7, 8] \<and>
   generateSpeech (\<lambda>n v c. (if n = 0 then Resolved None else Rejected, Suc n))
     (\<lambda>b. Some [7, 8]) (0::nat) (replicate 7000 0x61) []
   = Some (Inl SpeechFailed,
           \<lparr>service = 2,
            calls = [(replicate 3000 0x61, Resolved None), (replicate 3000 0x61, Rejected)]\<rparr>)"
proof -
  let ?gA = "\<lambda>(n::nat) (v::jsstring) (c::jsstring).
               (if n = 0 then Resolved None else if n = 1 then Resolved (Some [0x41])
                else Resolved (Some []), Suc n)"
  let ?gB = "\<lambda>(n::nat) (v::jsstring) (c::jsstring). (if n = 0 then Resolved None else Rejected, Suc n)"
  let ?dec = "\<lambda>b::jsstring. Some [7, 8 :: 8 word]"
  let ?segs = "[replicate 3000 0x61, replicate 3000 0x61, replicate 1000 (0x61 :: code_unit)]"
  let ?wA = "\<lparr>service = 3::nat,
            calls = [(replicate 3000 0x61, Resolved None),
                     (replicate 3000 0x61, Resolved (Some [0x41])),
                     (replicate 1000 0x61, Resolved (Some []))]\<rparr>"
  let ?wB = "\<lparr>service = 2::nat,
            calls = [(replicate 3000 0x61, Resolved None), (replicate 3000 0x61, Rejected)]\<rparr>"
  have nb: "filter (\<lambda>chunk. trim chunk \<noteq> []) ?segs = ?segs" by (simp add: trim_letters)
  have runA: "generateSpeech ?gA ?dec 0 (replicate 7000 0x61) [] = Some (Inr [7, 8], ?wA)"
    by (simp add: generateSpeech_def three_segments synthesizeChunks_def trim_letters
          catchAll_def setAt_def)
  have runB: "generateSpeech ?gB ?dec 0 (replicate 7000 0x61) [] = Some (Inl SpeechFailed, ?wB)"
    by (simp add: generateSpeech_def three_segments synthesizeChunks_def trim_letters catchAll_def)
  note instA = generateSpeech_empty_response [OF runA three_segments]
  note instB = generateSpeech_empty_response [OF runB three_segments]
  have okA: "\<forall>call\<in>set (calls ?wA). snd call \<noteq> Rejected \<and> \<not> undecodable ?dec (snd call)"
    by (simp add: undecodable_def)
  have first: "0 < length (calls ?wA)"
    "(snd (calls ?wA ! 0) = Resolved None \<or> snd (calls ?wA ! 0) = Resolved (Some [])) \<and>
       Suc 0 < length (filter (\<lambda>chunk. trim chunk \<noteq> []) ?segs)"
    unfolding nb by simp_all
  from instA first have "fst (calls ?wA ! Suc 0) = filter (\<lambda>chunk. trim chunk \<noteq> []) ?segs ! Suc 0"
    by blast
  from instA okA have "Inr [7, 8] = (if concat (payloads ?dec (calls ?wA)) = [] then Inl SpeechFailed
                   else Inr (concat (payloads ?dec (calls ?wA))))" by blast
  then have total: "concat (payloads ?dec (calls ?wA)) = [7, 8]"
    by (auto split: if_splits)
  have "1 < length (calls ?wB)" "snd (calls ?wB ! 1) = Rejected" by simp_all
  with instB have "Suc 1 = length (calls ?wB)" by blast
  from three_segments nb runA total runB show ?thesis
    by (simp only: world.simps)
qed

end
